theory Spec2Isabelle
  imports Complex_Main "HOL-Library.Word"
begin

unbundle bit_operations_syntax

section \<open>Botan's \<open>Truncated_Hash\<close>: a hash truncated to a number of bits\<close>

text \<open>
  The development embeds \<^verbatim>\<open>src/lib/hash/trunc_hash/trunc_hash.cpp\<close>. The class
  wraps an owned \<^verbatim>\<open>HashFunction\<close> and cuts its digest down to \<^verbatim>\<open>m_output_bits\<close> bits.

  Machine types: \<^verbatim>\<open>uint8_t\<close> is an 8-bit word, \<^verbatim>\<open>size_t\<close> a 64-bit word (arithmetic
  wraps), and the \<^verbatim>\<open>int\<close> that the operands of \<^verbatim>\<open><<\<close>, \<^verbatim>\<open>-\<close> and \<^verbatim>\<open>~\<close> are promoted to is a
  32-bit word in two's complement.
\<close>

type_synonym uint8_t = "8 word"
type_synonym size_t = "64 word"
type_synonym c_int = "32 word"

subsection \<open>The wrapped hash\<close>

text \<open>
  \<^verbatim>\<open>HashFunction\<close> is an abstract class whose declaration and implementations are not
  part of the sources at hand, so the class of the wrapped object is a parameter: a
  record of its virtual member functions over the type \<open>'s\<close> of its internal state.
  \<^item> \<open>hash_update\<close>: \<^verbatim>\<open>update(input)\<close>, the state after absorbing the bytes;
  \<^item> \<open>hash_final\<close>: \<^verbatim>\<open>final(buffer)\<close>, the digest written to the buffer and the state
    the object is left in;
  \<^item> \<open>hash_output_length\<close>: \<^verbatim>\<open>output_length()\<close>, the digest's length in bytes;
  \<^item> \<open>hash_new_object\<close>: the state of the object that \<^verbatim>\<open>new_object()\<close> creates;
  \<^item> \<open>hash_copy_state\<close>: the state of the object that \<^verbatim>\<open>copy_state()\<close> creates;
  \<^item> \<open>hash_clear\<close>: \<^verbatim>\<open>clear()\<close>.
\<close>

record 's HashFunction =
  hash_update :: "uint8_t list \<Rightarrow> 's \<Rightarrow> 's"
  hash_final :: "'s \<Rightarrow> uint8_t list \<times> 's"
  hash_output_length :: size_t
  hash_new_object :: 's
  hash_copy_state :: "'s \<Rightarrow> 's"
  hash_clear :: "'s \<Rightarrow> 's"

text \<open>
  Hash objects live on the heap and are reached through \<^verbatim>\<open>std::unique_ptr\<close>. The heap
  is the list of the states of the objects allocated so far, a pointer is an index
  into it, and the null pointer is \<open>None\<close>. \<^verbatim>\<open>std::make_unique\<close> appends a cell. Objects
  are never freed in the model. The adapters themselves are passed as values: the code
  holds pointers from an adapter to its wrapped hash, never to an adapter.
\<close>

type_synonym ref = nat
type_synonym 's heap = "'s list"

definition make_unique :: "'s \<Rightarrow> 's heap \<Rightarrow> ref \<times> 's heap" where
  "make_unique s h = (length h, h @ [s])"

datatype error =
    Invalid_Argument      \<comment> \<open>thrown by \<^verbatim>\<open>BOTAN_ARG_CHECK\<close>\<close>
  | Internal_Error        \<comment> \<open>thrown by \<^verbatim>\<open>BOTAN_ASSERT_NOMSG\<close>\<close>
  | Undefined_Behaviour   \<comment> \<open>a null or dangling pointer is dereferenced, or a buffer is
                              read or written out of its bounds\<close>

subsection \<open>The adapter\<close>

record Truncated_Hash =
  m_hash :: ref
  m_output_bits :: size_t
  m_buffer :: "uint8_t list"

text \<open>
  The constructor. The member initialisers run first, and \<^verbatim>\<open>m_buffer\<close>'s initialiser
  already calls \<^verbatim>\<open>m_hash->output_length()\<close>: a null \<^verbatim>\<open>hash\<close> is dereferenced there,
  before \<^verbatim>\<open>BOTAN_ASSERT_NONNULL\<close> is reached. The buffer is value-initialised: all
  zero. The two \<^verbatim>\<open>BOTAN_ARG_CHECK\<close>s follow in the order of the source.
\<close>

definition Truncated_Hash_ctor ::
  "'s HashFunction \<Rightarrow> ref option \<Rightarrow> size_t \<Rightarrow> 's heap \<Rightarrow> error + Truncated_Hash" where
  "Truncated_Hash_ctor H hash bits h =
     (case hash of
        None \<Rightarrow> Inl Undefined_Behaviour
      | Some r \<Rightarrow>
          if \<not> r < length h then Inl Undefined_Behaviour
          else
            let this = \<lparr>m_hash = r, m_output_bits = bits,
                        m_buffer = replicate (unat (hash_output_length H)) 0\<rparr>
            in if \<not> bits > 0 then Inl Invalid_Argument
               else if \<not> bits \<le> hash_output_length H * 8 then Inl Invalid_Argument
               else Inr this)"

text \<open>\<^verbatim>\<open>add_data\<close>: \<^verbatim>\<open>m_hash->update(input)\<close>.\<close>

definition add_data ::
  "'s HashFunction \<Rightarrow> uint8_t list \<Rightarrow> Truncated_Hash \<Rightarrow> 's heap
     \<Rightarrow> error + (Truncated_Hash \<times> 's heap)" where
  "add_data H input this h =
     (if \<not> m_hash this < length h then Inl Undefined_Behaviour
      else Inr (this, h[m_hash this := hash_update H input (h ! m_hash this)]))"

text \<open>\<^verbatim>\<open>output_length\<close>: \<^verbatim>\<open>(m_output_bits + 7) / 8\<close> in \<^verbatim>\<open>size_t\<close>.\<close>

definition output_length :: "Truncated_Hash \<Rightarrow> size_t" where
  "output_length this = (m_output_bits this + 7) div 8"

text \<open>
  The two constants of \<^verbatim>\<open>final_result\<close>. \<^verbatim>\<open>bits_in_last_byte\<close> is computed in
  \<^verbatim>\<open>size_t\<close> and converted to \<^verbatim>\<open>uint8_t\<close>. In \<^verbatim>\<open>bitmask\<close> the operands are promoted to
  \<^verbatim>\<open>int\<close>, and the result of \<^verbatim>\<open>~\<close> is converted to \<^verbatim>\<open>uint8_t\<close>, which keeps its low
  eight bits.
\<close>

definition bits_in_last_byte :: "Truncated_Hash \<Rightarrow> uint8_t" where
  "bits_in_last_byte this = ucast (((m_output_bits this - 1) mod 8) + 1)"

definition bitmask :: "uint8_t \<Rightarrow> uint8_t" where
  "bitmask b = ucast (NOT (push_bit (unat (8 - (ucast b :: c_int))) (1 :: c_int) - 1))"

text \<open>
  \<^verbatim>\<open>final_result(out)\<close>, statement by statement. \<open>out\<close> is the caller's buffer; the
  function returns its new contents, the adapter and the heap.
  \<^enum> \<^verbatim>\<open>BOTAN_ASSERT_NOMSG(m_hash->output_length() * 8 >= m_output_bits)\<close>, which
    dereferences \<^verbatim>\<open>m_hash\<close> to evaluate its condition;
  \<^enum> \<^verbatim>\<open>m_hash->final(m_buffer)\<close>: the buffer is resized to the wrapped
    \<^verbatim>\<open>output_length()\<close> and the wrapped hash writes its digest there and changes its own
    state; afterwards the buffer is the digest, of the length that \<open>hash_final\<close> gives
    it;
  \<^enum> \<^verbatim>\<open>std::copy_n(m_buffer.begin(), bytes, out.data())\<close>, which must stay inside both
    buffers;
  \<^enum> \<^verbatim>\<open>zeroise(m_buffer)\<close>;
  \<^enum> \<^verbatim>\<open>out.back() &= bitmask\<close>, which needs a last element.
\<close>

definition final_result ::
  "'s HashFunction \<Rightarrow> uint8_t list \<Rightarrow> Truncated_Hash \<Rightarrow> 's heap
     \<Rightarrow> error + (uint8_t list \<times> Truncated_Hash \<times> 's heap)" where
  "final_result H out this h =
     (if \<not> m_hash this < length h then Inl Undefined_Behaviour
      else if \<not> hash_output_length H * 8 \<ge> m_output_bits this then Inl Internal_Error
      else
        let (digest, s') = hash_final H (h ! m_hash this);
            h' = h[m_hash this := s'];
            this1 = this\<lparr>m_buffer := digest\<rparr>;
            bytes = unat (output_length this1)
        in if \<not> (bytes \<le> length (m_buffer this1) \<and> bytes \<le> length out)
           then Inl Undefined_Behaviour
           else
             let out1 = take bytes (m_buffer this1) @ drop bytes out;
                 this2 = this1\<lparr>m_buffer := replicate (length (m_buffer this1)) 0\<rparr>;
                 b = bits_in_last_byte this2;
                 m = bitmask b
             in if out1 = [] then Inl Undefined_Behaviour
                else Inr (butlast out1 @ [last out1 AND m], this2, h'))"

text \<open>
  \<^verbatim>\<open>new_object\<close> and \<^verbatim>\<open>copy_state\<close>: the wrapped hash creates a new object, and the
  constructor wraps it with the same \<^verbatim>\<open>m_output_bits\<close>.
\<close>

definition new_object ::
  "'s HashFunction \<Rightarrow> Truncated_Hash \<Rightarrow> 's heap \<Rightarrow> error + (Truncated_Hash \<times> 's heap)" where
  "new_object H this h =
     (if \<not> m_hash this < length h then Inl Undefined_Behaviour
      else
        let (r, h') = make_unique (hash_new_object H) h
        in case Truncated_Hash_ctor H (Some r) (m_output_bits this) h' of
             Inl e \<Rightarrow> Inl e
           | Inr that \<Rightarrow> Inr (that, h'))"

definition copy_state ::
  "'s HashFunction \<Rightarrow> Truncated_Hash \<Rightarrow> 's heap \<Rightarrow> error + (Truncated_Hash \<times> 's heap)" where
  "copy_state H this h =
     (if \<not> m_hash this < length h then Inl Undefined_Behaviour
      else
        let (r, h') = make_unique (hash_copy_state H (h ! m_hash this)) h
        in case Truncated_Hash_ctor H (Some r) (m_output_bits this) h' of
             Inl e \<Rightarrow> Inl e
           | Inr that \<Rightarrow> Inr (that, h'))"

text \<open>\<^verbatim>\<open>clear\<close>: \<^verbatim>\<open>m_hash->clear()\<close>.\<close>

definition clear ::
  "'s HashFunction \<Rightarrow> Truncated_Hash \<Rightarrow> 's heap \<Rightarrow> error + (Truncated_Hash \<times> 's heap)" where
  "clear H this h =
     (if \<not> m_hash this < length h then Inl Undefined_Behaviour
      else Inr (this, h[m_hash this := hash_clear H (h ! m_hash this)]))"

subsection \<open>Driving an adapter\<close>

text \<open>
  A caller feeds a message in chunks, one \<^verbatim>\<open>add_data\<close> per chunk, and then asks for the
  digest. \<open>add_data_seq\<close> is the sequence of updates, \<open>process\<close> is that sequence followed
  by \<^verbatim>\<open>final_result\<close>, and \<open>digest_of\<close> keeps the bytes handed back; the first error
  ends the run, as the exception would.
\<close>

fun add_data_seq ::
  "'s HashFunction \<Rightarrow> uint8_t list list \<Rightarrow> Truncated_Hash \<Rightarrow> 's heap
     \<Rightarrow> error + (Truncated_Hash \<times> 's heap)" where
  "add_data_seq H [] this h = Inr (this, h)"
| "add_data_seq H (c # cs) this h =
     (case add_data H c this h of
        Inl e \<Rightarrow> Inl e
      | Inr (this', h') \<Rightarrow> add_data_seq H cs this' h')"

definition process ::
  "'s HashFunction \<Rightarrow> uint8_t list list \<Rightarrow> uint8_t list \<Rightarrow> Truncated_Hash \<Rightarrow> 's heap
     \<Rightarrow> error + (uint8_t list \<times> Truncated_Hash \<times> 's heap)" where
  "process H cs out this h =
     (case add_data_seq H cs this h of
        Inl e \<Rightarrow> Inl e
      | Inr (this', h') \<Rightarrow> final_result H out this' h')"

definition digest_of ::
  "'s HashFunction \<Rightarrow> uint8_t list list \<Rightarrow> uint8_t list \<Rightarrow> Truncated_Hash \<Rightarrow> 's heap
     \<Rightarrow> error + uint8_t list" where
  "digest_of H cs out this h =
     (case process H cs out this h of
        Inl e \<Rightarrow> Inl e
      | Inr (res, _, _) \<Rightarrow> Inr res)"

subsection \<open>What the adapter expects of the wrapped hash\<close>

text \<open>
  The contract of \<^verbatim>\<open>HashFunction\<close> that the adapter relies on, each part on its own:
  the digest has \<^verbatim>\<open>output_length()\<close> bytes; updates are incremental (feeding two chunks
  is feeding their concatenation, and an empty chunk changes nothing); \<^verbatim>\<open>clear()\<close>
  leaves the object as \<^verbatim>\<open>new_object()\<close> creates it.
\<close>

definition digest_length_ok :: "'s HashFunction \<Rightarrow> bool" where
  "digest_length_ok H \<longleftrightarrow>
     (\<forall>s. length (fst (hash_final H s)) = unat (hash_output_length H))"

definition incremental :: "'s HashFunction \<Rightarrow> bool" where
  "incremental H \<longleftrightarrow>
     (\<forall>s. hash_update H [] s = s) \<and>
     (\<forall>a b s. hash_update H (a @ b) s = hash_update H b (hash_update H a s))"

definition clear_is_new :: "'s HashFunction \<Rightarrow> bool" where
  "clear_is_new H \<longleftrightarrow> (\<forall>s. hash_clear H s = hash_new_object H)"

subsection \<open>A small wrapped hash for the examples\<close>

text \<open>
  A two-byte checksum with the interface of \<^verbatim>\<open>HashFunction\<close>: the state is the sum of
  the bytes seen, the digest is the sum and its complement, and \<^verbatim>\<open>final\<close> resets the
  sum. The concrete instances of the theorems below run on it.
\<close>

definition checksum :: "uint8_t HashFunction" where
  "checksum =
     \<lparr>hash_update = (\<lambda>input s. fold (+) input s),
      hash_final = (\<lambda>s. ([s, NOT s], 0)),
      hash_output_length = 2,
      hash_new_object = 0,
      hash_copy_state = (\<lambda>s. s),
      hash_clear = (\<lambda>s. 0)\<rparr>"

section \<open>Properties\<close>

subsection \<open>Arithmetic of sizes\<close>

lemma ceiling_div8: "\<lceil>real n / 8\<rceil> = int ((n + 7) div 8)"
proof -
  have "\<lceil>real n / 8\<rceil> = \<lceil>real_of_int (int n) / real_of_int 8\<rceil>" by simp
  also have "\<dots> = - (- int n div 8)" by (rule ceiling_divide_eq_div)
  also have "\<dots> = int ((n + 7) div 8)" by (simp add: zdiv_int)
  finally show ?thesis .
qed

lemma unat_mul8_le: "unat ((x :: size_t) * 8) \<le> 18446744073709551608"
proof -
  have "unat (x * 8) = (unat x * 8) mod 2 ^ 64"
    by (simp add: unat_word_ariths)
  moreover have "(8::nat) dvd (unat x * 8) mod 2 ^ 64"
    by (simp add: dvd_mod)
  moreover have "(unat x * 8) mod 2 ^ 64 < (2::nat) ^ 64" by simp
  ultimately show ?thesis by (auto elim: dvdE)
qed

lemma unat_mul8_le_mult: "unat ((x :: size_t) * 8) \<le> unat x * 8"
  by (simp add: unat_word_ariths)

lemma unat_mul8_small: "unat (x :: size_t) < 2 ^ 61 \<Longrightarrow> unat (x * 8) = unat x * 8"
  by (simp add: unat_word_ariths)

lemma unat_add7:
  assumes "unat (bits :: size_t) \<le> 18446744073709551608"
  shows "unat (bits + 7) = unat bits + 7"
  using assms by (simp add: unat_word_ariths)

lemma unat_output_length:
  assumes "unat (m_output_bits this) \<le> 18446744073709551608"
  shows "unat (output_length this) = (unat (m_output_bits this) + 7) div 8"
  using unat_add7 [OF assms] by (simp add: output_length_def unat_div)

lemma ctor_Inr:
  "Truncated_Hash_ctor H hash bits h = Inr this \<longleftrightarrow>
     (\<exists>r. hash = Some r \<and> r < length h \<and> 0 < bits \<and> bits \<le> hash_output_length H * 8 \<and>
        this = \<lparr>m_hash = r, m_output_bits = bits,
                 m_buffer = replicate (unat (hash_output_length H)) 0\<rparr>)"
  by (auto simp: Truncated_Hash_ctor_def Let_def split: option.splits)

text \<open>What every constructed adapter satisfies.\<close>

lemma ctor_bits:
  assumes "Truncated_Hash_ctor H hash bits h = Inr this"
  shows "m_output_bits this = bits" "0 < unat bits" "unat bits \<le> unat (hash_output_length H * 8)"
    "unat bits \<le> 18446744073709551608" "unat bits \<le> unat (hash_output_length H) * 8"
    "m_buffer this = replicate (unat (hash_output_length H)) 0"
proof -
  from assms obtain r where r: "0 < bits" "bits \<le> hash_output_length H * 8"
    "this = \<lparr>m_hash = r, m_output_bits = bits,
                 m_buffer = replicate (unat (hash_output_length H)) 0\<rparr>"
    by (auto simp: ctor_Inr)
  show "m_output_bits this = bits" using r by simp
  show "m_buffer this = replicate (unat (hash_output_length H)) 0" using r by simp
  show "0 < unat bits" using r(1) by (simp add: word_less_nat_alt)
  show le: "unat bits \<le> unat (hash_output_length H * 8)" using r(2) by (simp add: word_le_nat_alt)
  show "unat bits \<le> 18446744073709551608"
    using le unat_mul8_le [of "hash_output_length H"] by linarith
  show "unat bits \<le> unat (hash_output_length H) * 8"
    using le unat_mul8_le_mult [of "hash_output_length H"] by linarith
qed

lemma replicate_2: "replicate 2 x = [x, x]"
  by (simp add: numeral_2_eq_2)

lemma int_output_length:
  assumes "unat (m_output_bits this) \<le> 18446744073709551608"
  shows "int (unat (output_length this)) = \<lceil>real (unat (m_output_bits this)) / 8\<rceil>"
  unfolding ceiling_div8 unat_output_length [OF assms] ..

subsection \<open>The output length\<close>

text \<open>
  Claim C5. For every adapter that the constructor returns, \<^verbatim>\<open>output_length()\<close> is the
  ceiling of \<open>bits / 8\<close>, and \<open>bits\<close> is at least 1: the addition \<^verbatim>\<open>m_output_bits + 7\<close>
  cannot wrap, because the constructor's bound \<^verbatim>\<open>m_hash->output_length() * 8\<close> is a
  multiple of eight in \<^verbatim>\<open>size_t\<close>. \<open>output_length\<close> reads the adapter and nothing else,
  and returns a number and nothing else: it has no heap to change. The expression
  \<^verbatim>\<open>(m_output_bits + 7) / 8\<close> is the ceiling for every value of \<^verbatim>\<open>m_output_bits\<close> from 1 up
  to the bound of any wrapped hash, which are the values the constructor lets through;
  it is so up to \<open>2^64 - 8\<close>, the largest bound there is.
\<close>

theorem output_length_ceiling:
  "(Truncated_Hash_ctor H hash bits h = Inr this \<longrightarrow>
      int (unat (output_length this)) = \<lceil>real (unat bits) / 8\<rceil> \<and>
      m_output_bits this = bits \<and> 1 \<le> bits) \<and>
   (1 \<le> m_output_bits that \<and> m_output_bits that \<le> hash_output_length H * 8 \<longrightarrow>
      int (unat (output_length that)) = \<lceil>real (unat (m_output_bits that)) / 8\<rceil>) \<and>
   (1 \<le> m_output_bits that \<and> m_output_bits that \<le> 18446744073709551608 \<longrightarrow>
      int (unat (output_length that)) = \<lceil>real (unat (m_output_bits that)) / 8\<rceil>)"
proof (intro conjI impI)
  assume c: "Truncated_Hash_ctor H hash bits h = Inr this"
  show b: "m_output_bits this = bits" by (rule ctor_bits(1) [OF c])
  have "unat (m_output_bits this) \<le> 18446744073709551608"
    using ctor_bits(4) [OF c] unfolding b .
  from int_output_length [OF this]
  show "int (unat (output_length this)) = \<lceil>real (unat bits) / 8\<rceil>"
    unfolding b .
  show "1 \<le> bits" using ctor_bits(2) [OF c] by (simp add: word_le_nat_alt)
next
  assume "1 \<le> m_output_bits that \<and> m_output_bits that \<le> hash_output_length H * 8"
  then have "unat (m_output_bits that) \<le> unat (hash_output_length H * 8)"
    by (simp add: word_le_nat_alt)
  with unat_mul8_le [of "hash_output_length H"]
  have "unat (m_output_bits that) \<le> 18446744073709551608" by linarith
  then show "int (unat (output_length that)) = \<lceil>real (unat (m_output_bits that)) / 8\<rceil>"
    by (rule int_output_length)
next
  assume "1 \<le> m_output_bits that \<and> m_output_bits that \<le> 18446744073709551608"
  then have "unat (m_output_bits that) \<le> 18446744073709551608"
    by (simp add: word_le_nat_alt)
  then show "int (unat (output_length that)) = \<lceil>real (unat (m_output_bits that)) / 8\<rceil>"
    by (rule int_output_length)
qed

theorem output_length_ceiling_witness:
  "Truncated_Hash_ctor checksum (Some 0) 12 [0] =
     Inr \<lparr>m_hash = 0, m_output_bits = 12, m_buffer = [0, 0]\<rparr> \<and>
   int (unat (output_length \<lparr>m_hash = 0, m_output_bits = 12, m_buffer = [0, 0]\<rparr>)) =
     \<lceil>real (unat (12 :: size_t)) / 8\<rceil> \<and>
   unat (output_length \<lparr>m_hash = 0, m_output_bits = 12, m_buffer = [0, 0]\<rparr>) = 2 \<and>
   (1 :: size_t) \<le> 9 \<and> (9 :: size_t) \<le> hash_output_length checksum * 8 \<and>
   (9 :: size_t) \<le> 18446744073709551608 \<and>
   int (unat (output_length \<lparr>m_hash = 0, m_output_bits = 9, m_buffer = []\<rparr>)) =
     \<lceil>real (unat (9 :: size_t)) / 8\<rceil>"
proof -
  let ?t = "\<lparr>m_hash = 0, m_output_bits = 12, m_buffer = [0, 0 :: uint8_t]\<rparr>"
  let ?u = "\<lparr>m_hash = 0, m_output_bits = 9, m_buffer = [] :: uint8_t list\<rparr>"
  have c: "Truncated_Hash_ctor checksum (Some 0) 12 [0] = Inr ?t"
    by (simp add: Truncated_Hash_ctor_def checksum_def replicate_2)
  have r: "1 \<le> m_output_bits ?u \<and> m_output_bits ?u \<le> hash_output_length checksum * 8"
    by (simp add: checksum_def)
  have r': "1 \<le> m_output_bits ?u \<and> m_output_bits ?u \<le> 18446744073709551608"
    by simp
  have v: "unat (output_length ?t) = 2"
    by (simp add: output_length_def)
  note t = output_length_ceiling [of checksum "Some 0" 12 "[0]" ?t ?u]
  from t c have "int (unat (output_length ?t)) = \<lceil>real (unat (12 :: size_t)) / 8\<rceil>"
    by blast
  moreover from t r have "int (unat (output_length ?u)) = \<lceil>real (unat (9 :: size_t)) / 8\<rceil>"
    by simp
  ultimately show ?thesis using c v r r' by simp
qed

subsection \<open>The mask of the last byte\<close>

lemma unat_bits_in_last_byte:
  "unat (bits_in_last_byte this) = unat (m_output_bits this - 1) mod 8 + 1"
proof -
  let ?y = "(m_output_bits this - 1) mod 8"
  have y: "unat ?y = unat (m_output_bits this - 1) mod 8"
    by (simp add: unat_mod)
  then have "unat ?y < 8" by simp
  then have "unat (?y + 1) = unat ?y + 1"
    by (simp add: unat_word_ariths)
  moreover have "unat (ucast (?y + 1) :: uint8_t) = unat (?y + 1) mod 2 ^ 8"
    by (simp add: unsigned_ucast_eq take_bit_eq_mod)
  ultimately show ?thesis using y by (simp add: bits_in_last_byte_def)
qed


lemma bits_in_last_byte_range:
  "1 \<le> unat (bits_in_last_byte this)" "unat (bits_in_last_byte this) \<le> 8"
  by (simp_all add: unat_bits_in_last_byte)

lemma bitmask_8: "bitmask 8 = 255"
  by (simp add: bitmask_def) code_simp






subsection \<open>The run of \<open>final_result\<close> on a constructed adapter\<close>

lemma output_length_bounds:
  assumes c: "Truncated_Hash_ctor H hash bits h0 = Inr this"
  shows "1 \<le> unat (output_length this)"
    and "unat (output_length this) \<le> unat (hash_output_length H)"
    and "unat (output_length this) = (unat bits + 7) div 8"
proof -
  note b = ctor_bits [OF c]
  have "unat (m_output_bits this) \<le> 18446744073709551608" using b(1,4) by simp
  from unat_output_length [OF this]
  show n: "unat (output_length this) = (unat bits + 7) div 8" using b(1) by simp
  show "1 \<le> unat (output_length this)" using n b(2) by simp
  show "unat (output_length this) \<le> unat (hash_output_length H)" using n b(5) by simp
qed

lemma final_result_run:
  assumes c: "Truncated_Hash_ctor H hash bits h0 = Inr this"
      and r: "m_hash this < length h"
      and f: "hash_final H (h ! m_hash this) = (digest, s')"
      and l: "length digest = unat (hash_output_length H)"
      and o: "unat (output_length this) \<le> length out"
  shows "final_result H out this h =
           Inr (butlast (take (unat (output_length this)) digest @
                         drop (unat (output_length this)) out) @
                [last (take (unat (output_length this)) digest @
                       drop (unat (output_length this)) out)
                 AND bitmask (bits_in_last_byte this)],
                this, h[m_hash this := s'])"
proof -
  note b = ctor_bits [OF c]
  note n = output_length_bounds [OF c]
  have a: "m_output_bits this \<le> hash_output_length H * 8"
    using c by (auto simp: ctor_Inr)
  have ol: "output_length (this\<lparr>m_buffer := digest\<rparr>) = output_length this"
    by (simp add: output_length_def)
  have bl: "bits_in_last_byte (this\<lparr>m_buffer := replicate (length digest) 0\<rparr>) =
      bits_in_last_byte this"
    by (simp add: bits_in_last_byte_def)
  have z: "this\<lparr>m_buffer := replicate (length digest) 0\<rparr> = this"
    using b(6) l by simp
  have ne: "take (unat (output_length this)) digest @ drop (unat (output_length this)) out \<noteq> []"
    using n(1,2) l by auto
  have le: "unat (output_length this) \<le> length digest" using n(2) l by simp
  show ?thesis
    unfolding final_result_def
    using a r f le o ne by (simp add: Let_def ol bl z)
qed


lemma and_255: "(x :: uint8_t) AND 255 = x"
proof -
  have "(255 :: uint8_t) = - 1" by simp
  then show ?thesis by (simp only: and.right_neutral)
qed

subsection \<open>Construction\<close>

text \<open>
  Claim C2 reads its bound as \<open>nativeOutputBits * 8\<close>, the wrapped hash's length in bits
  times eight. The constructor compares with \<^verbatim>\<open>m_hash->output_length() * 8\<close>, and
  \<^verbatim>\<open>output_length()\<close> is a number of bytes: the bound is the length in bits itself. On
  the checksum, whose digest has 2 bytes or 16 bits, 17 bits lie strictly between 0 and
  \<open>16 * 8 + 1\<close>, and the constructor refuses them.
\<close>

theorem ctor_bound_is_bits_counterexample:
  "hash_output_length checksum * 8 = 16 \<and>
   (0 :: size_t) < 17 \<and>
   (17 :: size_t) \<le> (hash_output_length checksum * 8) * 8 \<and>
   (17 :: size_t) < (hash_output_length checksum * 8) * 8 + 1 \<and>
   Truncated_Hash_ctor checksum (Some 0) 17 [0] = Inl Invalid_Argument"
  by (simp add: Truncated_Hash_ctor_def checksum_def)

text \<open>
  Claim C2 with the bound the code has: eight times the wrapped hash's length in
  bytes. With a wrapped hash at hand, the constructor throws \<^verbatim>\<open>Invalid_Argument\<close> (the
  specification's \<open>InvalidConfiguration\<close>) exactly when \<open>bits\<close> is zero or exceeds
  \<^verbatim>\<open>m_hash->output_length() * 8\<close>, and returns an adapter exactly otherwise. It fails at
  0 and at one more than the bound, and succeeds at every value strictly in between.
  The bound is the product as \<^verbatim>\<open>size_t\<close> computes it; below \<open>2^61\<close> bytes of digest it
  is the product of the numbers.
\<close>

theorem ctor_fails_iff:
  assumes "r < length h"
  shows "(Truncated_Hash_ctor H (Some r) bits h = Inl Invalid_Argument \<longleftrightarrow>
            bits = 0 \<or> bits > hash_output_length H * 8) \<and>
         ((\<exists>this. Truncated_Hash_ctor H (Some r) bits h = Inr this) \<longleftrightarrow>
            \<not> (bits = 0 \<or> bits > hash_output_length H * 8)) \<and>
         Truncated_Hash_ctor H (Some r) 0 h = Inl Invalid_Argument \<and>
         Truncated_Hash_ctor H (Some r) (hash_output_length H * 8 + 1) h = Inl Invalid_Argument \<and>
         (0 < bits \<and> bits < hash_output_length H * 8 + 1 \<longrightarrow>
            Truncated_Hash_ctor H (Some r) bits h =
              Inr \<lparr>m_hash = r, m_output_bits = bits,
                   m_buffer = replicate (unat (hash_output_length H)) 0\<rparr>) \<and>
         (unat (hash_output_length H) < 2 ^ 61 \<longrightarrow>
            (bits > hash_output_length H * 8 \<longleftrightarrow> unat bits > 8 * unat (hash_output_length H)))"
proof -
  let ?n = "hash_output_length H * 8"
  have no_wrap: "unat (?n + 1) = unat ?n + 1"
    using unat_mul8_le [of "hash_output_length H"] by (simp add: unat_word_ariths)
  then have above: "?n < ?n + 1" by (simp add: word_less_nat_alt)
  have between: "bits < ?n + 1 \<longleftrightarrow> bits \<le> ?n"
    using no_wrap by (auto simp: word_less_nat_alt word_le_nat_alt)
  have pos: "0 < bits \<longleftrightarrow> bits \<noteq> 0" by (simp add: word_greater_zero_iff)
  have small: "unat (hash_output_length H) < 2 ^ 61 \<Longrightarrow>
      (bits > ?n \<longleftrightarrow> unat bits > 8 * unat (hash_output_length H))"
    by (simp add: word_less_nat_alt unat_mul8_small mult.commute)
  show ?thesis
    using assms above between small
    by (auto simp: Truncated_Hash_ctor_def Let_def pos not_le)
qed

theorem ctor_fails_iff_witness:
  "(0 :: nat) < length [0 :: uint8_t] \<and>
   Truncated_Hash_ctor checksum (Some 0) 0 [0] = Inl Invalid_Argument \<and>
   Truncated_Hash_ctor checksum (Some 0) 17 [0] = Inl Invalid_Argument \<and>
   (0 :: size_t) < 16 \<and> (16 :: size_t) < hash_output_length checksum * 8 + 1 \<and>
   Truncated_Hash_ctor checksum (Some 0) 16 [0] =
     Inr \<lparr>m_hash = 0, m_output_bits = 16, m_buffer = [0, 0]\<rparr> \<and>
   unat (hash_output_length checksum) < 2 ^ 61"
proof -
  have l: "(0 :: nat) < length [0 :: uint8_t]" by simp
  have n: "hash_output_length checksum * 8 + 1 = 17" "unat (hash_output_length checksum) = 2"
    by (simp_all add: checksum_def)
  have b: "(0 :: size_t) < 16 \<and> (16 :: size_t) < hash_output_length checksum * 8 + 1"
    by (simp add: n)
  from ctor_fails_iff [OF l, of checksum 16] b n show ?thesis
    by (simp add: replicate_2)
qed


subsection \<open>Safety of \<open>final_result\<close>\<close>

lemma digest_length_okD:
  "digest_length_ok H \<Longrightarrow> hash_final H s = (digest, s') \<Longrightarrow>
     length digest = unat (hash_output_length H)"
  by (auto simp: digest_length_ok_def dest: spec [of _ s])

text \<open>
  Claim C10. For an adapter that the constructor returned, whose wrapped hash is alive
  and writes digests of its announced length, and a caller's buffer of at least
  \<^verbatim>\<open>output_length()\<close> bytes: the bits are between 1 and eight times the wrapped output
  length, the assertion of \<^verbatim>\<open>final_result\<close> holds, the scratch buffer has the wrapped
  output length, \<^verbatim>\<open>copy_n\<close> reads at most that many bytes and at least one, the shift
  count \<^verbatim>\<open>8 - bits_in_last_byte\<close> is between 0 and 7, and \<^verbatim>\<open>final_result\<close> returns,
  with a result that has a last byte.
\<close>

theorem final_result_safe:
  assumes c: "Truncated_Hash_ctor H hash bits h0 = Inr this"
      and r: "m_hash this < length h"
      and d: "digest_length_ok H"
      and o: "unat (output_length this) \<le> length out"
  shows "1 \<le> m_output_bits this \<and>
         unat (m_output_bits this) \<le> 8 * unat (hash_output_length H) \<and>
         hash_output_length H * 8 \<ge> m_output_bits this \<and>
         length (m_buffer this) = unat (hash_output_length H) \<and>
         length (fst (hash_final H (h ! m_hash this))) = unat (hash_output_length H) \<and>
         unat (output_length this) \<le> unat (hash_output_length H) \<and>
         1 \<le> unat (output_length this) \<and>
         1 \<le> unat (bits_in_last_byte this) \<and> unat (bits_in_last_byte this) \<le> 8 \<and>
         (\<exists>res h'. final_result H out this h = Inr (res, this, h') \<and> res \<noteq> [])"
proof -
  obtain digest s' where f: "hash_final H (h ! m_hash this) = (digest, s')"
    by (cases "hash_final H (h ! m_hash this)")
  note l = digest_length_okD [OF d f]
  note b = ctor_bits [OF c]
  note n = output_length_bounds [OF c]
  have a: "m_output_bits this \<le> hash_output_length H * 8" "0 < m_output_bits this"
    using c by (auto simp: ctor_Inr)
  have one: "1 \<le> m_output_bits this" using a(2) by (simp add: word_le_nat_alt word_less_nat_alt)
  have run: "\<exists>res h'. final_result H out this h = Inr (res, this, h') \<and> res \<noteq> []"
    unfolding final_result_run [OF c r f l o] by simp
  show ?thesis
    using one a(1) b(1,5,6) n(1,2) l f run bits_in_last_byte_range [of this]
    by (simp add: mult.commute)
qed

theorem final_result_safe_witness:
  "Truncated_Hash_ctor checksum (Some 0) 12 [0] =
     Inr \<lparr>m_hash = 0, m_output_bits = 12, m_buffer = [0, 0]\<rparr> \<and>
   m_hash \<lparr>m_hash = 0, m_output_bits = 12, m_buffer = [0, 0]\<rparr> < length [171 :: uint8_t] \<and>
   digest_length_ok checksum \<and>
   unat (output_length \<lparr>m_hash = 0, m_output_bits = 12, m_buffer = [0, 0]\<rparr>) \<le>
     length [7, 7 :: uint8_t] \<and>
   (\<exists>res h'. final_result checksum [7, 7] \<lparr>m_hash = 0, m_output_bits = 12, m_buffer = [0, 0]\<rparr>
       [171] = Inr (res, \<lparr>m_hash = 0, m_output_bits = 12, m_buffer = [0, 0]\<rparr>, h') \<and> res \<noteq> [])"
proof -
  let ?t = "\<lparr>m_hash = 0, m_output_bits = 12, m_buffer = [0, 0 :: uint8_t]\<rparr>"
  have c: "Truncated_Hash_ctor checksum (Some 0) 12 [0] = Inr ?t"
    by (simp add: Truncated_Hash_ctor_def checksum_def replicate_2)
  have r: "m_hash ?t < length [171 :: uint8_t]" by simp
  have d: "digest_length_ok checksum" by (simp add: digest_length_ok_def checksum_def)
  have o: "unat (output_length ?t) \<le> length [7, 7 :: uint8_t]"
    by (simp add: output_length_def)
  from final_result_safe [OF c r d o] c r d o show ?thesis by blast
qed

subsection \<open>The truncated digest\<close>

lemma final_result_exact:
  assumes c: "Truncated_Hash_ctor H hash bits h0 = Inr this"
      and r: "m_hash this < length h"
      and f: "hash_final H (h ! m_hash this) = (digest, s')"
      and l: "length digest = unat (hash_output_length H)"
      and o: "length out = unat (output_length this)"
  shows "final_result H out this h =
           Inr (butlast (take (unat (output_length this)) digest) @
                [last (take (unat (output_length this)) digest)
                 AND bitmask (bits_in_last_byte this)],
                this, h[m_hash this := s'])"
proof -
  have "unat (output_length this) \<le> length out" using o by simp
  from final_result_run [OF c r f l this] show ?thesis using o by simp
qed




subsection \<open>Truncation to the full length\<close>

lemma unat_max_size: "unat (- 1 :: size_t) = 18446744073709551615"
  by (simp add: unsigned_minus_1_eq_mask mask_eq_exp_minus_1)

lemma unat_max_size_mod8: "unat (- 1 :: size_t) mod 8 = 7"
  unfolding unat_max_size by simp

lemma pred_mod8:
  fixes n :: nat
  assumes "8 dvd n" "0 < n"
  shows "(n - 1) mod 8 = 7"
proof -
  from assms obtain k where k: "n = 8 * k" "0 < k" by (auto elim: dvdE)
  then have "n - 1 = 7 + 8 * (k - 1)" by simp
  then show ?thesis by (simp only: mod_mult_self2) simp
qed

lemma bits_in_last_byte_aligned:
  assumes "8 dvd unat (m_output_bits this)"
  shows "bits_in_last_byte this = 8"
proof -
  have "unat (m_output_bits this - 1) mod 8 = 7"
  proof (cases "m_output_bits this = 0")
    case True
    then have "m_output_bits this - 1 = - 1" by simp
    then show ?thesis by (simp only: unat_max_size_mod8)
  next
    case False
    then have "unat (m_output_bits this - 1) = unat (m_output_bits this) - 1"
      by (rule unat_minus_one)
    moreover from False have "0 < unat (m_output_bits this)"
      by (simp add: unat_gt_0)
    ultimately show ?thesis by (simp only: pred_mod8 [OF assms])
  qed
  then have "unat (bits_in_last_byte this) = unat (8 :: uint8_t)"
    by (simp add: unat_bits_in_last_byte)
  then show ?thesis by (simp only: word_unat_eq_iff)
qed

text \<open>
  Claim C3. When \<open>bits\<close> is the wrapped hash's length in bits, eight times its
  \<^verbatim>\<open>output_length()\<close>, \<^verbatim>\<open>final_result\<close> hands back the wrapped digest byte for byte.
  The mask is then \<open>0xFF\<close>; and for every \<^verbatim>\<open>m_output_bits\<close> that is a multiple of eight
  the mask is \<open>0xFF\<close> and the AND with it clears no bit of any byte.
\<close>

theorem full_length_reproduces_digest:
  assumes c: "Truncated_Hash_ctor H hash bits h0 = Inr this"
      and r: "m_hash this < length h"
      and f: "hash_final H (h ! m_hash this) = (digest, s')"
      and l: "length digest = unat (hash_output_length H)"
      and o: "length out = unat (output_length this)"
      and n: "unat bits = 8 * unat (hash_output_length H)"
  shows "final_result H out this h = Inr (digest, this, h[m_hash this := s']) \<and>
         bitmask (bits_in_last_byte this) = 255 \<and>
         (8 dvd unat (m_output_bits that) \<longrightarrow>
            bitmask (bits_in_last_byte that) = 255 \<and>
            x AND bitmask (bits_in_last_byte that) = x)"
proof -
  note b = ctor_bits [OF c]
  have len: "unat (output_length this) = length digest"
    using output_length_bounds(3) [OF c] n l by simp
  have ne: "digest \<noteq> []"
    using output_length_bounds(1) [OF c] len by auto
  have al: "8 dvd unat (m_output_bits this)" using b(1) n by simp
  have m: "bitmask (bits_in_last_byte this) = 255"
    by (simp only: bits_in_last_byte_aligned [OF al] bitmask_8)
  have "final_result H out this h =
      Inr (butlast digest @ [last digest AND 255], this, h[m_hash this := s'])"
    unfolding final_result_exact [OF c r f l o] len m by simp
  then have run: "final_result H out this h = Inr (digest, this, h[m_hash this := s'])"
    using ne by (simp add: and_255)
  have gen: "8 dvd unat (m_output_bits that) \<longrightarrow>
      bitmask (bits_in_last_byte that) = 255 \<and> x AND bitmask (bits_in_last_byte that) = x"
    by (simp add: bits_in_last_byte_aligned bitmask_8 and_255)
  from run m gen show ?thesis by blast
qed

theorem full_length_reproduces_digest_witness:
  "Truncated_Hash_ctor checksum (Some 0) 16 [0] =
     Inr \<lparr>m_hash = 0, m_output_bits = 16, m_buffer = [0, 0]\<rparr> \<and>
   m_hash \<lparr>m_hash = 0, m_output_bits = 16, m_buffer = [0, 0]\<rparr> < length [171 :: uint8_t] \<and>
   hash_final checksum
     ([171] ! m_hash \<lparr>m_hash = 0, m_output_bits = 16, m_buffer = [0, 0]\<rparr>) = ([171, 84], 0) \<and>
   length [171, 84 :: uint8_t] = unat (hash_output_length checksum) \<and>
   length [7, 7 :: uint8_t] =
     unat (output_length \<lparr>m_hash = 0, m_output_bits = 16, m_buffer = [0, 0]\<rparr>) \<and>
   unat (16 :: size_t) = 8 * unat (hash_output_length checksum) \<and>
   final_result checksum [7, 7] \<lparr>m_hash = 0, m_output_bits = 16, m_buffer = [0, 0]\<rparr> [171] =
     Inr ([171, 84], \<lparr>m_hash = 0, m_output_bits = 16, m_buffer = [0, 0]\<rparr>, [0]) \<and>
   8 dvd unat (m_output_bits \<lparr>m_hash = 0, m_output_bits = 24, m_buffer = []\<rparr>) \<and>
   bitmask (bits_in_last_byte \<lparr>m_hash = 0, m_output_bits = 24, m_buffer = []\<rparr>) = 255"
proof -
  let ?t = "\<lparr>m_hash = 0, m_output_bits = 16, m_buffer = [0, 0 :: uint8_t]\<rparr>"
  let ?u = "\<lparr>m_hash = 0, m_output_bits = 24, m_buffer = [] :: uint8_t list\<rparr>"
  have c: "Truncated_Hash_ctor checksum (Some 0) 16 [0] = Inr ?t"
    by (simp add: Truncated_Hash_ctor_def checksum_def replicate_2)
  have r: "m_hash ?t < length [171 :: uint8_t]" by simp
  have f: "hash_final checksum ([171] ! m_hash ?t) = ([171, 84], 0)"
    by (simp add: checksum_def)
  have l: "length [171, 84 :: uint8_t] = unat (hash_output_length checksum)"
    by (simp add: checksum_def)
  have o: "length [7, 7 :: uint8_t] = unat (output_length ?t)"
    by (simp add: output_length_def)
  have n: "unat (16 :: size_t) = 8 * unat (hash_output_length checksum)"
    by (simp add: checksum_def)
  have d: "8 dvd unat (m_output_bits ?u)" by simp
  from full_length_reproduces_digest [OF c r f l o n, of ?u 0] d
  have "final_result checksum [7, 7] ?t [171] = Inr ([171, 84], ?t, [0]) \<and>
      bitmask (bits_in_last_byte ?u) = 255"
    by simp
  with c r f l o n d show ?thesis by blast
qed

subsection \<open>The scratch buffer\<close>

lemma take_pred_butlast:
  assumes "n \<le> length d" "take n d @ ys \<noteq> []"
  shows "take (n - 1) (butlast (take n d @ ys) @ [z]) = take (n - 1) d"
proof -
  let ?xs = "take n d @ ys"
  have len: "length ?xs = n + length ys" using assms(1) by simp
  have "take (n - 1) (butlast ?xs @ [z]) = take (n - 1) (butlast ?xs)"
    using len assms(2) by simp
  also have "\<dots> = take (n - 1) ?xs"
  proof (rule take_butlast)
    from assms(2) have "0 < length ?xs" by blast
    then have "0 < n + length ys" unfolding len .
    then have "n - 1 < n + length ys" by arith
    then show "n - 1 < length ?xs" unfolding len .
  qed
  also have "\<dots> = take (n - 1) d"
    using assms(1) by (simp add: min_def)
  finally show ?thesis .
qed

lemma final_result_Inr:
  assumes "final_result H out this h = Inr (res, this', h')"
  shows "m_buffer this' = replicate (length (fst (hash_final H (h ! m_hash this)))) 0"
    and "take (unat (output_length this) - 1) res =
         take (unat (output_length this) - 1) (fst (hash_final H (h ! m_hash this)))"
    and "h' = h[m_hash this := snd (hash_final H (h ! m_hash this))]"
    and "this' = this\<lparr>m_buffer := m_buffer this'\<rparr>"
proof -
  obtain digest s' where f: "hash_final H (h ! m_hash this) = (digest, s')"
    by (cases "hash_final H (h ! m_hash this)")
  have ol: "output_length (this\<lparr>m_buffer := digest\<rparr>) = output_length this"
    by (simp add: output_length_def)
  let ?n = "unat (output_length this)"
  from assms f ol have *: "?n \<le> length digest" "take ?n digest @ drop ?n out \<noteq> []"
      "res = butlast (take ?n digest @ drop ?n out) @
         [last (take ?n digest @ drop ?n out)
            AND bitmask (bits_in_last_byte (this\<lparr>m_buffer := replicate (length digest) 0\<rparr>))]"
      "this' = this\<lparr>m_buffer := replicate (length digest) 0\<rparr>"
      "h' = h[m_hash this := s']"
    by (auto simp: final_result_def Let_def split: if_splits)
  show "m_buffer this' = replicate (length (fst (hash_final H (h ! m_hash this)))) 0"
    using *(4) f by simp
  show "take (?n - 1) res = take (?n - 1) (fst (hash_final H (h ! m_hash this)))"
    unfolding *(3) using take_pred_butlast [OF *(1,2)] f by simp
  show "h' = h[m_hash this := snd (hash_final H (h ! m_hash this))]"
    using *(5) f by simp
  show "this' = this\<lparr>m_buffer := m_buffer this'\<rparr>"
    using *(4) by simp
qed


text \<open>
  Claim C4. Whenever \<^verbatim>\<open>final_result\<close> returns, whatever the scratch buffer held
  before, the buffer it leaves has the length of the wrapped digest and every byte of
  it is zero, while the bytes handed back (all before the masked one) are the
  digest's: they were copied out before \<^verbatim>\<open>zeroise\<close> ran. For an adapter that the
  constructor returned the call does return, that length is the wrapped hash's
  \<^verbatim>\<open>output_length()\<close>, and the adapter after the call is the adapter before it, so
  every later call finds the same situation.
\<close>

theorem final_result_zeroises:
  "(final_result H out this h = Inr (res, this', h') \<longrightarrow>
      m_buffer this' = replicate (length (fst (hash_final H (h ! m_hash this)))) 0 \<and>
      (\<forall>x \<in> set (m_buffer this'). x = 0) \<and>
      take (unat (output_length this) - 1) res =
        take (unat (output_length this) - 1) (fst (hash_final H (h ! m_hash this)))) \<and>
   (Truncated_Hash_ctor H hash bits h0 = Inr that \<and> m_hash that < length k \<and>
    digest_length_ok H \<and> unat (output_length that) \<le> length buf \<longrightarrow>
      (\<exists>res' k'. final_result H buf that k = Inr (res', that, k')) \<and>
      m_buffer that = replicate (unat (hash_output_length H)) 0)"
proof (intro conjI impI)
  assume run: "final_result H out this h = Inr (res, this', h')"
  show z: "m_buffer this' = replicate (length (fst (hash_final H (h ! m_hash this)))) 0"
    by (rule final_result_Inr(1) [OF run])
  show "\<forall>x \<in> set (m_buffer this'). x = 0"
    unfolding z by simp
  show "take (unat (output_length this) - 1) res =
        take (unat (output_length this) - 1) (fst (hash_final H (h ! m_hash this)))"
    by (rule final_result_Inr(2) [OF run])
next
  assume a: "Truncated_Hash_ctor H hash bits h0 = Inr that \<and> m_hash that < length k \<and>
    digest_length_ok H \<and> unat (output_length that) \<le> length buf"
  then have c: "Truncated_Hash_ctor H hash bits h0 = Inr that" and r: "m_hash that < length k"
    and d: "digest_length_ok H" and o: "unat (output_length that) \<le> length buf"
    by simp_all
  obtain digest s' where f: "hash_final H (k ! m_hash that) = (digest, s')"
    by (cases "hash_final H (k ! m_hash that)")
  show "\<exists>res' k'. final_result H buf that k = Inr (res', that, k')"
    unfolding final_result_run [OF c r f digest_length_okD [OF d f] o] by simp
  show "m_buffer that = replicate (unat (hash_output_length H)) 0"
    by (rule ctor_bits(6) [OF c])
qed

theorem final_result_zeroises_witness:
  "final_result checksum [7, 7] \<lparr>m_hash = 0, m_output_bits = 12, m_buffer = [9, 9, 9]\<rparr> [171] =
     Inr ([171, 80], \<lparr>m_hash = 0, m_output_bits = 12, m_buffer = [0, 0]\<rparr>, [0]) \<and>
   m_buffer \<lparr>m_hash = 0, m_output_bits = 12, m_buffer = [0, 0 :: uint8_t]\<rparr> =
     replicate (length (fst (hash_final checksum
       ([171] ! m_hash \<lparr>m_hash = 0, m_output_bits = 12, m_buffer = [9, 9, 9]\<rparr>)))) 0 \<and>
   Truncated_Hash_ctor checksum (Some 0) 12 [0] =
     Inr \<lparr>m_hash = 0, m_output_bits = 12, m_buffer = [0, 0]\<rparr> \<and>
   m_hash \<lparr>m_hash = 0, m_output_bits = 12, m_buffer = [0, 0]\<rparr> < length [171 :: uint8_t] \<and>
   digest_length_ok checksum \<and>
   unat (output_length \<lparr>m_hash = 0, m_output_bits = 12, m_buffer = [0, 0]\<rparr>) \<le>
     length [7, 7 :: uint8_t] \<and>
   (\<exists>res' k'. final_result checksum [7, 7] \<lparr>m_hash = 0, m_output_bits = 12, m_buffer = [0, 0]\<rparr>
      [171] = Inr (res', \<lparr>m_hash = 0, m_output_bits = 12, m_buffer = [0, 0]\<rparr>, k'))"
proof -
  let ?g = "\<lparr>m_hash = 0, m_output_bits = 12, m_buffer = [9, 9, 9 :: uint8_t]\<rparr>"
  let ?t = "\<lparr>m_hash = 0, m_output_bits = 12, m_buffer = [0, 0 :: uint8_t]\<rparr>"
  have e: "final_result checksum [7, 7] ?g [171] = Inr ([171, 80], ?t, [0])"
    by (simp add: final_result_def checksum_def output_length_def bits_in_last_byte_def
        bitmask_def Let_def replicate_2)
  have c: "Truncated_Hash_ctor checksum (Some 0) 12 [0] = Inr ?t"
    by (simp add: Truncated_Hash_ctor_def checksum_def replicate_2)
  have r: "m_hash ?t < length [171 :: uint8_t]" by simp
  have d: "digest_length_ok checksum" by (simp add: digest_length_ok_def checksum_def)
  have o: "unat (output_length ?t) \<le> length [7, 7 :: uint8_t]"
    by (simp add: output_length_def)
  note t = final_result_zeroises [of checksum "[7, 7]" ?g "[171]" "[171, 80]" ?t "[0]"
      "Some 0" 12 "[0]" ?t "[171]" "[7, 7]"]
  from t e have "m_buffer ?t =
     replicate (length (fst (hash_final checksum ([171] ! m_hash ?g)))) 0"
    by blast
  moreover from t c r d o
  have "\<exists>res' k'. final_result checksum [7, 7] ?t [171] = Inr (res', ?t, k')"
    by blast
  ultimately show ?thesis using e c r d o by blast
qed

subsection \<open>Runs through the heap\<close>

lemma add_data_seq_run:
  assumes "m_hash this < length h"
  shows "add_data_seq H cs this h =
           Inr (this, h[m_hash this := fold (hash_update H) cs (h ! m_hash this)])"
  using assms
proof (induction cs arbitrary: h)
  case Nil
  then show ?case by simp
next
  case (Cons c cs)
  let ?h = "h[m_hash this := hash_update H c (h ! m_hash this)]"
  have step: "add_data H c this h = Inr (this, ?h)"
    using Cons.prems by (simp add: add_data_def)
  have "m_hash this < length ?h" using Cons.prems by simp
  from Cons.IH [OF this] step Cons.prems show ?case by simp
qed

lemma process_run:
  assumes "m_hash this < length h"
  shows "process H cs out this h =
           final_result H out this
             (h[m_hash this := fold (hash_update H) cs (h ! m_hash this)])"
  by (simp add: process_def add_data_seq_run [OF assms])

text \<open>
  What \<open>final_result\<close> hands back depends on the adapter's bits and on the state of
  its wrapped hash, not on where that hash lives, on the other cells of the heap or
  on the scratch buffer.
\<close>

lemma output_length_buffer: "output_length (t\<lparr>m_buffer := x\<rparr>) = output_length t"
  by (simp add: output_length_def)

lemma bits_in_last_byte_buffer: "bits_in_last_byte (t\<lparr>m_buffer := x\<rparr>) = bits_in_last_byte t"
  by (simp add: bits_in_last_byte_def)

lemma final_result_depends:
  assumes "m_output_bits a = m_output_bits b"
      and "m_hash a < length h" "m_hash b < length k"
      and "h ! m_hash a = k ! m_hash b"
  shows "map_sum id fst (final_result H out a h) = map_sum id fst (final_result H out b k)"
proof -
  have "output_length a = output_length b"
    using assms(1) by (simp add: output_length_def)
  moreover have "bits_in_last_byte a = bits_in_last_byte b"
    using assms(1) by (simp add: bits_in_last_byte_def)
  ultimately show ?thesis
    using assms
    by (simp add: final_result_def Let_def output_length_buffer bits_in_last_byte_buffer
        split: prod.splits)
qed

lemma digest_of_run:
  assumes "m_hash this < length h"
  shows "digest_of H cs out this h =
           map_sum id fst (final_result H out this
             (h[m_hash this := fold (hash_update H) cs (h ! m_hash this)]))"
  unfolding digest_of_def process_run [OF assms]
  by (simp split: sum.splits)

lemma digest_of_depends:
  assumes "m_output_bits a = m_output_bits b"
      and "m_hash a < length h" "m_hash b < length k"
      and "h ! m_hash a = k ! m_hash b"
  shows "digest_of H cs out a h = digest_of H cs out b k"
  unfolding digest_of_run [OF assms(2)] digest_of_run [OF assms(3)]
  by (rule final_result_depends) (use assms in simp_all)

subsection \<open>Feeding data\<close>

lemma fold_update_concat:
  assumes "incremental H"
  shows "fold (hash_update H) cs s = hash_update H (concat cs) s"
proof (induction cs arbitrary: s)
  case Nil
  from assms show ?case by (simp add: incremental_def)
next
  case (Cons c cs)
  from assms have "hash_update H (c @ concat cs) s = hash_update H (concat cs) (hash_update H c s)"
    by (simp add: incremental_def)
  with Cons.IH [of "hash_update H c s"] show ?case by simp
qed

text \<open>
  Claim C8. With its wrapped hash alive, \<^verbatim>\<open>add_data\<close> returns the adapter as it was
  (bits and scratch buffer included) and a heap in which only the wrapped hash has
  changed: its state is the wrapped \<^verbatim>\<open>update\<close> of the same bytes, applied at once. Any
  number of calls, none included, amounts to the wrapped updates in the same order, and
  the digest is the one \<^verbatim>\<open>final_result\<close> computes from that state. For a wrapped hash
  whose updates are incremental, two ways of cutting the same bytes into chunks give
  the same digest.
\<close>

theorem add_data_forwards:
  assumes r: "m_hash this < length h"
  shows "(\<exists>h'. add_data H input this h = Inr (this, h') \<and>
            length h' = length h \<and>
            h' ! m_hash this = hash_update H input (h ! m_hash this) \<and>
            (\<forall>p < length h. p \<noteq> m_hash this \<longrightarrow> h' ! p = h ! p)) \<and>
         add_data_seq H [] this h = Inr (this, h) \<and>
         add_data_seq H cs this h =
           Inr (this, h[m_hash this := fold (hash_update H) cs (h ! m_hash this)]) \<and>
         digest_of H cs out this h =
           map_sum id fst (final_result H out this
             (h[m_hash this := fold (hash_update H) cs (h ! m_hash this)])) \<and>
         (incremental H \<and> concat cs = concat cs' \<longrightarrow>
            digest_of H cs out this h = digest_of H cs' out this h)"
proof (intro conjI impI)
  let ?h = "h[m_hash this := hash_update H input (h ! m_hash this)]"
  have "add_data H input this h = Inr (this, ?h)"
    using r by (simp add: add_data_def)
  moreover have "length ?h = length h" by simp
  moreover have "?h ! m_hash this = hash_update H input (h ! m_hash this)"
    using r by simp
  moreover have "\<forall>p < length h. p \<noteq> m_hash this \<longrightarrow> ?h ! p = h ! p"
    by simp
  ultimately show "\<exists>h'. add_data H input this h = Inr (this, h') \<and>
            length h' = length h \<and>
            h' ! m_hash this = hash_update H input (h ! m_hash this) \<and>
            (\<forall>p < length h. p \<noteq> m_hash this \<longrightarrow> h' ! p = h ! p)"
    by blast
next
  show "add_data_seq H [] this h = Inr (this, h)" by simp
next
  show "add_data_seq H cs this h =
           Inr (this, h[m_hash this := fold (hash_update H) cs (h ! m_hash this)])"
    by (rule add_data_seq_run [OF r])
next
  show "digest_of H cs out this h =
           map_sum id fst (final_result H out this
             (h[m_hash this := fold (hash_update H) cs (h ! m_hash this)]))"
    by (rule digest_of_run [OF r])
next
  assume "incremental H \<and> concat cs = concat cs'"
  then have i: "incremental H" and e: "concat cs = concat cs'" by simp_all
  have "fold (hash_update H) cs (h ! m_hash this) = fold (hash_update H) cs' (h ! m_hash this)"
    unfolding fold_update_concat [OF i] e ..
  then show "digest_of H cs out this h = digest_of H cs' out this h"
    unfolding digest_of_run [OF r] by simp
qed

lemma incremental_checksum: "incremental checksum"
  by (simp add: incremental_def checksum_def)

theorem add_data_forwards_witness:
  "m_hash \<lparr>m_hash = 0, m_output_bits = 12, m_buffer = [0, 0]\<rparr> < length [5 :: uint8_t] \<and>
   add_data checksum [1, 2] \<lparr>m_hash = 0, m_output_bits = 12, m_buffer = [0, 0]\<rparr> [5] =
     Inr (\<lparr>m_hash = 0, m_output_bits = 12, m_buffer = [0, 0]\<rparr>, [8]) \<and>
   incremental checksum \<and>
   concat [[1, 2], [3 :: uint8_t]] = concat [[1], [2, 3]] \<and>
   digest_of checksum [[1, 2], [3]] [7, 7]
       \<lparr>m_hash = 0, m_output_bits = 12, m_buffer = [0, 0]\<rparr> [5] =
     digest_of checksum [[1], [2, 3]] [7, 7]
       \<lparr>m_hash = 0, m_output_bits = 12, m_buffer = [0, 0]\<rparr> [5] \<and>
   digest_of checksum [[1, 2], [3]] [7, 7]
       \<lparr>m_hash = 0, m_output_bits = 12, m_buffer = [0, 0]\<rparr> [5] = Inr [11, 240]"
proof -
  let ?t = "\<lparr>m_hash = 0, m_output_bits = 12, m_buffer = [0, 0 :: uint8_t]\<rparr>"
  have r: "m_hash ?t < length [5 :: uint8_t]" by simp
  have e: "add_data checksum [1, 2] ?t [5] = Inr (?t, [8])"
    by (simp add: add_data_def checksum_def)
  have c: "concat [[1, 2], [3 :: uint8_t]] = concat [[1], [2, 3]]" by simp
  have v: "digest_of checksum [[1, 2], [3]] [7, 7] ?t [5] = Inr [11, 240]"
    by (simp add: digest_of_def process_def add_data_def final_result_def checksum_def
        output_length_def bits_in_last_byte_def bitmask_def Let_def)
  from add_data_forwards [OF r, of checksum "[1, 2]" "[[1, 2], [3]]" "[7, 7]" "[[1], [2, 3]]"]
    incremental_checksum c
  have "digest_of checksum [[1, 2], [3]] [7, 7] ?t [5] =
     digest_of checksum [[1], [2, 3]] [7, 7] ?t [5]"
    by blast
  with r e c v incremental_checksum show ?thesis by blast
qed

subsection \<open>Determinism\<close>

lemma ctor_m_hash:
  assumes "Truncated_Hash_ctor H (Some r) bits h = Inr this"
  shows "m_hash this = r" "r < length h"
  using assms by (auto simp: ctor_Inr)

lemma ctor_heap_irrelevant:
  assumes "Truncated_Hash_ctor H (Some r) bits h = Inr this" "r < length k"
  shows "Truncated_Hash_ctor H (Some r) bits k = Inr this"
  using assms by (auto simp: ctor_Inr)




subsection \<open>Copies and resets\<close>

lemma copy_state_run:
  assumes c: "Truncated_Hash_ctor H hash bits h0 = Inr this"
      and r: "m_hash this < length h"
  shows "copy_state H this h =
           Inr (this\<lparr>m_hash := length h\<rparr>, h @ [hash_copy_state H (h ! m_hash this)])"
proof -
  from c obtain q where t: "0 < bits" "bits \<le> hash_output_length H * 8"
    "this = \<lparr>m_hash = q, m_output_bits = bits,
             m_buffer = replicate (unat (hash_output_length H)) 0\<rparr>"
    by (auto simp: ctor_Inr)
  show ?thesis
    using r t by (simp add: copy_state_def make_unique_def Truncated_Hash_ctor_def)
qed

lemma new_object_run:
  assumes c: "Truncated_Hash_ctor H hash bits h0 = Inr this"
      and r: "m_hash this < length h"
  shows "new_object H this h = Inr (this\<lparr>m_hash := length h\<rparr>, h @ [hash_new_object H])"
proof -
  from c obtain q where t: "0 < bits" "bits \<le> hash_output_length H * 8"
    "this = \<lparr>m_hash = q, m_output_bits = bits,
             m_buffer = replicate (unat (hash_output_length H)) 0\<rparr>"
    by (auto simp: ctor_Inr)
  show ?thesis
    using r t by (simp add: new_object_def make_unique_def Truncated_Hash_ctor_def)
qed

text \<open>Feeding one adapter leaves the digest of an adapter over another object alone.\<close>

lemma digest_of_frame:
  assumes "m_hash a < length h" "m_hash b < length h" "m_hash a \<noteq> m_hash b"
  shows "\<exists>h1. add_data_seq H xs a h = Inr (a, h1) \<and> length h1 = length h \<and>
           h1 ! m_hash b = h ! m_hash b \<and>
           (\<forall>ys out. digest_of H ys out b h1 = digest_of H ys out b h)"
proof -
  let ?h1 = "h[m_hash a := fold (hash_update H) xs (h ! m_hash a)]"
  have run: "add_data_seq H xs a h = Inr (a, ?h1)"
    by (rule add_data_seq_run [OF assms(1)])
  have same: "?h1 ! m_hash b = h ! m_hash b" using assms(3) by simp
  have len: "m_hash b < length ?h1" using assms(2) by simp
  have "digest_of H ys out b ?h1 = digest_of H ys out b h" for ys out
    by (rule digest_of_depends [OF refl len assms(2) same])
  with run same show ?thesis by auto
qed

text \<open>
  Claim C7. \<^verbatim>\<open>copy_state\<close> on a constructed adapter returns a new adapter with the same
  bits over a new heap object, distinct from the original's, whose state is what the
  wrapped \<^verbatim>\<open>copy_state\<close> made of the original's current state; the original's object is
  untouched. Feeding any chunks to the copy leaves the original's wrapped state and
  every digest the original can still produce as they were, and the other way round.
  When the wrapped \<^verbatim>\<open>copy_state\<close> hands back the same state, copy and original produce
  the same digests.
\<close>

theorem copy_state_isolated:
  assumes c: "Truncated_Hash_ctor H hash bits h0 = Inr this"
      and r: "m_hash this < length h"
  shows "\<exists>that h'.
           copy_state H this h = Inr (that, h') \<and>
           m_output_bits that = m_output_bits this \<and>
           m_hash that \<noteq> m_hash this \<and>
           m_hash that < length h' \<and> m_hash this < length h' \<and>
           h' ! m_hash that = hash_copy_state H (h ! m_hash this) \<and>
           h' ! m_hash this = h ! m_hash this \<and>
           (\<forall>xs. \<exists>h1. add_data_seq H xs that h' = Inr (that, h1) \<and>
                    h1 ! m_hash this = h' ! m_hash this \<and>
                    (\<forall>ys out. digest_of H ys out this h1 = digest_of H ys out this h')) \<and>
           (\<forall>xs. \<exists>h2. add_data_seq H xs this h' = Inr (this, h2) \<and>
                    h2 ! m_hash that = h' ! m_hash that \<and>
                    (\<forall>ys out. digest_of H ys out that h2 = digest_of H ys out that h')) \<and>
           ((\<forall>s. hash_copy_state H s = s) \<longrightarrow>
              (\<forall>ys out. digest_of H ys out that h' = digest_of H ys out this h'))"
proof -
  let ?that = "this\<lparr>m_hash := length h\<rparr>"
  let ?h' = "h @ [hash_copy_state H (h ! m_hash this)]"
  have run: "copy_state H this h = Inr (?that, ?h')"
    by (rule copy_state_run [OF c r])
  have bits: "m_output_bits ?that = m_output_bits this" by simp
  have ne: "m_hash ?that \<noteq> m_hash this" using r by simp
  have v1: "m_hash ?that < length ?h'" by simp
  have v2: "m_hash this < length ?h'" using r by simp
  have s1: "?h' ! m_hash ?that = hash_copy_state H (h ! m_hash this)" by simp
  have s2: "?h' ! m_hash this = h ! m_hash this" using r by (simp add: nth_append)
  have f1: "\<exists>h1. add_data_seq H xs ?that ?h' = Inr (?that, h1) \<and>
                    h1 ! m_hash this = ?h' ! m_hash this \<and>
                    (\<forall>ys out. digest_of H ys out this h1 = digest_of H ys out this ?h')" for xs
    using digest_of_frame [OF v1 v2 ne, of H xs] by blast
  have f2: "\<exists>h2. add_data_seq H xs this ?h' = Inr (this, h2) \<and>
                    h2 ! m_hash ?that = ?h' ! m_hash ?that \<and>
                    (\<forall>ys out. digest_of H ys out ?that h2 = digest_of H ys out ?that ?h')" for xs
    using digest_of_frame [OF v2 v1 ne [symmetric], of H xs] by blast
  have same: "digest_of H ys out ?that ?h' = digest_of H ys out this ?h'"
    if "\<forall>s. hash_copy_state H s = s" for ys out
  proof (rule digest_of_depends [OF bits v1 v2])
    show "?h' ! m_hash ?that = ?h' ! m_hash this"
      unfolding s1 s2 using that by simp
  qed
  show ?thesis
    apply (rule exI [of _ ?that])
    apply (rule exI [of _ ?h'])
    using run bits ne v1 v2 s1 s2 f1 f2 same by blast
qed


theorem copy_state_isolated_witness:
  "Truncated_Hash_ctor checksum (Some 0) 12 [0] =
     Inr \<lparr>m_hash = 0, m_output_bits = 12, m_buffer = [0, 0]\<rparr> \<and>
   m_hash \<lparr>m_hash = 0, m_output_bits = 12, m_buffer = [0, 0]\<rparr> < length [5 :: uint8_t] \<and>
   copy_state checksum \<lparr>m_hash = 0, m_output_bits = 12, m_buffer = [0, 0]\<rparr> [5] =
     Inr (\<lparr>m_hash = 1, m_output_bits = 12, m_buffer = [0, 0]\<rparr>, [5, 5]) \<and>
   add_data_seq checksum [[1]] \<lparr>m_hash = 1, m_output_bits = 12, m_buffer = [0, 0]\<rparr> [5, 5] =
     Inr (\<lparr>m_hash = 1, m_output_bits = 12, m_buffer = [0, 0]\<rparr>, [5, 6]) \<and>
   digest_of checksum [[2]] [7, 7] \<lparr>m_hash = 0, m_output_bits = 12, m_buffer = [0, 0]\<rparr> [5, 6] =
     digest_of checksum [[2]] [7, 7] \<lparr>m_hash = 0, m_output_bits = 12, m_buffer = [0, 0]\<rparr> [5, 5] \<and>
   add_data_seq checksum [[1]] \<lparr>m_hash = 0, m_output_bits = 12, m_buffer = [0, 0]\<rparr> [5, 5] =
     Inr (\<lparr>m_hash = 0, m_output_bits = 12, m_buffer = [0, 0]\<rparr>, [6, 5]) \<and>
   digest_of checksum [[2]] [7, 7] \<lparr>m_hash = 1, m_output_bits = 12, m_buffer = [0, 0]\<rparr> [6, 5] =
     digest_of checksum [[2]] [7, 7] \<lparr>m_hash = 1, m_output_bits = 12, m_buffer = [0, 0]\<rparr> [5, 5]"
proof -
  let ?t = "\<lparr>m_hash = 0, m_output_bits = 12, m_buffer = [0, 0 :: uint8_t]\<rparr>"
  let ?u = "\<lparr>m_hash = 1, m_output_bits = 12, m_buffer = [0, 0 :: uint8_t]\<rparr>"
  have c: "Truncated_Hash_ctor checksum (Some 0) 12 [0] = Inr ?t"
    by (simp add: Truncated_Hash_ctor_def checksum_def replicate_2)
  have r: "m_hash ?t < length [5 :: uint8_t]" by simp
  have e: "copy_state checksum ?t [5] = Inr (?u, [5, 5])"
    by (simp add: copy_state_def make_unique_def Truncated_Hash_ctor_def checksum_def
        replicate_2)
  have a1: "add_data_seq checksum [[1]] ?u [5, 5] = Inr (?u, [5, 6])"
    by (simp add: add_data_def checksum_def)
  have a2: "add_data_seq checksum [[1]] ?t [5, 5] = Inr (?t, [6, 5])"
    by (simp add: add_data_def checksum_def)
  from copy_state_isolated [OF c r] obtain that h' where
    cp: "copy_state checksum ?t [5] = Inr (that, h')" and
    i1: "\<forall>xs. \<exists>h1. add_data_seq checksum xs that h' = Inr (that, h1) \<and>
            h1 ! m_hash ?t = h' ! m_hash ?t \<and>
            (\<forall>ys out. digest_of checksum ys out ?t h1 = digest_of checksum ys out ?t h')" and
    i2: "\<forall>xs. \<exists>h2. add_data_seq checksum xs ?t h' = Inr (?t, h2) \<and>
            h2 ! m_hash that = h' ! m_hash that \<and>
            (\<forall>ys out. digest_of checksum ys out that h2 = digest_of checksum ys out that h')"
    by blast
  from cp e have eq: "that = ?u" "h' = [5, 5]" by simp_all
  from i1 [unfolded eq] a1
  have d1: "digest_of checksum [[2]] [7, 7] ?t [5, 6] = digest_of checksum [[2]] [7, 7] ?t [5, 5]"
    by (metis Inr_inject prod.inject)
  from i2 [unfolded eq] a2
  have d2: "digest_of checksum [[2]] [7, 7] ?u [6, 5] = digest_of checksum [[2]] [7, 7] ?u [5, 5]"
    by (metis Inr_inject prod.inject)
  from c r e a1 d1 a2 d2 show ?thesis by blast
qed

text \<open>
  Claim C9. \<^verbatim>\<open>clear\<close> on a constructed adapter returns the adapter as it was (the bits
  included) and a heap in which only the wrapped hash has changed, to what the wrapped
  \<^verbatim>\<open>clear\<close> makes of it. When the wrapped \<^verbatim>\<open>clear\<close> leaves the initial state, the adapter
  is, but for the address of its wrapped hash, the adapter that the constructor
  returns for the same bits over a new wrapped hash, and it produces the same digest
  for every input; so does the adapter that \<^verbatim>\<open>new_object\<close> creates.
\<close>

theorem clear_resets:
  assumes c: "Truncated_Hash_ctor H hash bits h0 = Inr this"
      and r: "m_hash this < length h"
  shows "\<exists>hc. clear H this h = Inr (this, hc) \<and>
           length hc = length h \<and>
           hc ! m_hash this = hash_clear H (h ! m_hash this) \<and>
           (\<forall>p < length h. p \<noteq> m_hash this \<longrightarrow> hc ! p = h ! p) \<and>
           (clear_is_new H \<longrightarrow> hc ! m_hash this = hash_new_object H) \<and>
           (clear_is_new H \<and> k ! q = hash_new_object H \<and>
            Truncated_Hash_ctor H (Some q) (m_output_bits this) k = Inr fresh \<longrightarrow>
              fresh = this\<lparr>m_hash := q\<rparr> \<and>
              digest_of H cs out this hc = digest_of H cs out fresh k) \<and>
           (clear_is_new H \<longrightarrow>
              (\<exists>fresh k. new_object H this h = Inr (fresh, k) \<and>
                 digest_of H cs out this hc = digest_of H cs out fresh k))"
proof -
  let ?hc = "h[m_hash this := hash_clear H (h ! m_hash this)]"
  have run: "clear H this h = Inr (this, ?hc)" using r by (simp add: clear_def)
  have len: "length ?hc = length h" by simp
  have rc: "m_hash this < length ?hc" using r by simp
  have cell: "?hc ! m_hash this = hash_clear H (h ! m_hash this)" using r by simp
  have others: "\<forall>p < length h. p \<noteq> m_hash this \<longrightarrow> ?hc ! p = h ! p" by simp
  have new: "clear_is_new H \<longrightarrow> ?hc ! m_hash this = hash_new_object H"
    unfolding cell by (simp add: clear_is_new_def)
  have fresh: "clear_is_new H \<and> k ! q = hash_new_object H \<and>
            Truncated_Hash_ctor H (Some q) (m_output_bits this) k = Inr fresh \<longrightarrow>
              fresh = this\<lparr>m_hash := q\<rparr> \<and>
              digest_of H cs out this ?hc = digest_of H cs out fresh k"
  proof (intro impI, elim conjE)
    assume n: "clear_is_new H" and kq: "k ! q = hash_new_object H"
      and cf: "Truncated_Hash_ctor H (Some q) (m_output_bits this) k = Inr fresh"
    note mf = ctor_m_hash [OF cf]
    have fb: "m_output_bits fresh = m_output_bits this" by (rule ctor_bits(1) [OF cf])
    show "fresh = this\<lparr>m_hash := q\<rparr> \<and>
              digest_of H cs out this ?hc = digest_of H cs out fresh k"
    proof
      show "fresh = this\<lparr>m_hash := q\<rparr>"
        using mf(1) fb ctor_bits(6) [OF cf] ctor_bits(6) [OF c] by simp
      have "m_hash fresh < length k" using mf by simp
      moreover have "?hc ! m_hash this = k ! m_hash fresh"
        using new n kq mf(1) by simp
      ultimately show "digest_of H cs out this ?hc = digest_of H cs out fresh k"
        using digest_of_depends [OF fb [symmetric] rc] by blast
    qed
  qed
  have inst: "clear_is_new H \<longrightarrow>
              (\<exists>fresh k. new_object H this h = Inr (fresh, k) \<and>
                 digest_of H cs out this ?hc = digest_of H cs out fresh k)"
  proof
    assume n: "clear_is_new H"
    let ?f = "this\<lparr>m_hash := length h\<rparr>"
    let ?k = "h @ [hash_new_object H]"
    have no: "new_object H this h = Inr (?f, ?k)" by (rule new_object_run [OF c r])
    have "m_output_bits this = m_output_bits ?f" by simp
    moreover have "m_hash ?f < length ?k" by simp
    moreover have "?hc ! m_hash this = ?k ! m_hash ?f" using new n by simp
    ultimately have "digest_of H cs out this ?hc = digest_of H cs out ?f ?k"
      using digest_of_depends [of this ?f ?hc ?k] rc by blast
    with no show "\<exists>fresh k. new_object H this h = Inr (fresh, k) \<and>
                 digest_of H cs out this ?hc = digest_of H cs out fresh k"
      by blast
  qed
  show ?thesis
    apply (rule exI [of _ ?hc])
    using run len cell others new fresh inst by blast
qed


theorem clear_resets_witness:
  "Truncated_Hash_ctor checksum (Some 0) 12 [0] =
     Inr \<lparr>m_hash = 0, m_output_bits = 12, m_buffer = [0, 0]\<rparr> \<and>
   m_hash \<lparr>m_hash = 0, m_output_bits = 12, m_buffer = [0, 0]\<rparr> < length [5 :: uint8_t] \<and>
   clear checksum \<lparr>m_hash = 0, m_output_bits = 12, m_buffer = [0, 0]\<rparr> [5] =
     Inr (\<lparr>m_hash = 0, m_output_bits = 12, m_buffer = [0, 0]\<rparr>, [0]) \<and>
   clear_is_new checksum \<and>
   [9, 0 :: uint8_t] ! 1 = hash_new_object checksum \<and>
   Truncated_Hash_ctor checksum (Some 1)
       (m_output_bits \<lparr>m_hash = 0, m_output_bits = 12, m_buffer = [0, 0]\<rparr>) [9, 0] =
     Inr \<lparr>m_hash = 1, m_output_bits = 12, m_buffer = [0, 0]\<rparr> \<and>
   digest_of checksum [[1]] [7, 7] \<lparr>m_hash = 0, m_output_bits = 12, m_buffer = [0, 0]\<rparr> [0] =
     digest_of checksum [[1]] [7, 7] \<lparr>m_hash = 1, m_output_bits = 12, m_buffer = [0, 0]\<rparr> [9, 0] \<and>
   digest_of checksum [[1]] [7, 7] \<lparr>m_hash = 0, m_output_bits = 12, m_buffer = [0, 0]\<rparr> [0] =
     Inr [1, 240]"
proof -
  let ?t = "\<lparr>m_hash = 0, m_output_bits = 12, m_buffer = [0, 0 :: uint8_t]\<rparr>"
  let ?u = "\<lparr>m_hash = 1, m_output_bits = 12, m_buffer = [0, 0 :: uint8_t]\<rparr>"
  have c: "Truncated_Hash_ctor checksum (Some 0) 12 [0] = Inr ?t"
    by (simp add: Truncated_Hash_ctor_def checksum_def replicate_2)
  have r: "m_hash ?t < length [5 :: uint8_t]" by simp
  have e: "clear checksum ?t [5] = Inr (?t, [0])"
    by (simp add: clear_def checksum_def)
  have n: "clear_is_new checksum" by (simp add: clear_is_new_def checksum_def)
  have kq: "[9, 0 :: uint8_t] ! 1 = hash_new_object checksum" by (simp add: checksum_def)
  have cf: "Truncated_Hash_ctor checksum (Some 1) (m_output_bits ?t) [9, 0] = Inr ?u"
    by (simp add: Truncated_Hash_ctor_def checksum_def replicate_2)
  have v: "digest_of checksum [[1]] [7, 7] ?t [0] = Inr [1, 240]"
    by (simp add: digest_of_def process_def add_data_def final_result_def checksum_def
        output_length_def bits_in_last_byte_def bitmask_def Let_def)
  from clear_resets [OF c r, of "[9, 0]" 1 ?u "[[1]]" "[7, 7]"] obtain hc where
    cl: "clear checksum ?t [5] = Inr (?t, hc)" and
    fr: "clear_is_new checksum \<and> [9, 0] ! 1 = hash_new_object checksum \<and>
         Truncated_Hash_ctor checksum (Some 1) (m_output_bits ?t) [9, 0] = Inr ?u \<longrightarrow>
           ?u = ?t\<lparr>m_hash := 1\<rparr> \<and>
           digest_of checksum [[1]] [7, 7] ?t hc = digest_of checksum [[1]] [7, 7] ?u [9, 0]"
    by blast
  from cl e have hc: "hc = [0]" by simp
  from fr n kq cf
  have "digest_of checksum [[1]] [7, 7] ?t [0] = digest_of checksum [[1]] [7, 7] ?u [9, 0]"
    unfolding hc by blast
  with c r e n kq cf v show ?thesis by blast
qed

end
